theory Spec2Isabelle
  imports Main "HOL-Library.Word"
begin

unbundle bit_operations_syntax

section \<open>The Bloom filter of bloom.go\<close>

text \<open>
  The package keeps a bit array of \<open>m\<close> cells and sets, for every inserted item, the
  \<open>k\<close> cells named by \<open>k\<close> salted hashes of the item. The Go type \<open>uint\<close> is taken at
  its width on 64-bit targets, 64 bits, as is \<open>uint64\<close>; a byte is an 8-bit word and a
  Go string is its sequence of bytes.
\<close>

type_synonym byte = "8 word"
type_synonym uint = "64 word"
type_synonym uint64 = "64 word"

subsection \<open>The two libraries the package imports\<close>

text \<open>
  The hash is not part of the package: \<open>location\<close> asks the murmur3 library for a
  64-bit digest. Every function below that hashes takes the digest function as its
  first argument, and every theorem holds for any such function.
\<close>

type_synonym hasher = "byte list \<Rightarrow> uint64"

text \<open>
  Modelled from the spec: the bit-array primitive (the imported bitset library, whose
  code is not among the sources), "a fixed-length array of single-bit cells supporting
  indexed get, indexed set, and whole-array clear". A bit set is the list of its cells.
  Reading beyond the last cell gives false; setting beyond the last cell, which the
  filter never does, lengthens the array up to that cell, as the library does.
\<close>

type_synonym BitSet = "bool list"

definition bitset_New :: "uint \<Rightarrow> BitSet" where
  "bitset_New len = replicate (unat len) False"

definition bitset_Set :: "BitSet \<Rightarrow> uint \<Rightarrow> BitSet" where
  "bitset_Set bs i =
     (if unat i < length bs then bs[unat i := True]
      else bs @ replicate (unat i - length bs) False @ [True])"

definition bitset_Test :: "BitSet \<Rightarrow> uint \<Rightarrow> bool" where
  "bitset_Test bs i = (unat i < length bs \<and> bs ! unat i)"

definition bitset_ClearAll :: "BitSet \<Rightarrow> BitSet" where
  "bitset_ClearAll bs = replicate (length bs) False"

subsection \<open>The filter and its errors\<close>

record BloomFilter =
  m :: uint
  k :: uint
  b :: BitSet

text \<open>
  \<open>New\<close> returns an error value carrying a message; the remainder \<open>%\<close> panics when
  the divisor is zero. Both are results of the model.
\<close>

datatype error = InvalidParameter string | DivideByZero

definition uintToBytes :: "uint \<Rightarrow> byte list" where
  "uintToBytes v =
     [ucast v, ucast (drop_bit 8 v), ucast (drop_bit 16 v), ucast (drop_bit 24 v)]"

definition New :: "uint \<Rightarrow> uint \<Rightarrow> error + BloomFilter" where
  "New mm kk =
     (if mm < 1 then Inl (InvalidParameter ''New m < 1'')
      else if kk < 1 then Inl (InvalidParameter ''New k < 1'')
      else Inr \<lparr>m = mm, k = kk, b = bitset_New mm\<rparr>)"

definition location :: "hasher \<Rightarrow> BloomFilter \<Rightarrow> byte list \<Rightarrow> uint \<Rightarrow> error + uint" where
  "location h f data i =
     (let result = data @ uintToBytes i
      in if m f = 0 then Inl DivideByZero else Inr (h result mod m f))"

definition Cap :: "BloomFilter \<Rightarrow> uint" where
  "Cap f = m f"

definition HashFunctionNum :: "BloomFilter \<Rightarrow> uint" where
  "HashFunctionNum f = k f"

subsection \<open>The loops\<close>

text \<open>
  Each \<open>for i := uint(0); i < f.k; i++\<close> is a recursion on the counter \<open>i\<close>, which
  cannot wrap around: it is incremented only while it is below \<open>k\<close>.
\<close>

lemma unat_succ_below: "i < kk \<Longrightarrow> unat (i + 1) = Suc (unat i)" for i kk :: uint
proof -
  assume "i < kk"
  then have "unat i < unat kk" by (simp add: word_less_nat_alt)
  moreover have "unat kk < 2 ^ 64" using unsigned_less [of kk] by simp
  ultimately have "unat i + unat (1 :: uint) < 2 ^ LENGTH(64)" by simp
  then have "unat (i + 1) = unat i + unat (1 :: uint)" by (simp only: unat_add_lem)
  then show ?thesis by simp
qed

lemma word_le_step: "i < kk \<Longrightarrow> (i \<le> j) = (j = i \<or> i + 1 \<le> j)" for i j kk :: uint
  by (auto simp: word_le_nat_alt unat_succ_below word_unat_eq_iff)

lemma loop_measure: "i < kk \<Longrightarrow> unat kk - unat (i + 1) < unat kk - unat i" for i kk :: uint
  by (simp add: unat_succ_below word_less_nat_alt)

function Add_loop :: "hasher \<Rightarrow> BloomFilter \<Rightarrow> byte list \<Rightarrow> uint \<Rightarrow> error + BloomFilter" where
  "Add_loop h f data i =
     (if i < k f then
        (case location h f data i of
           Inl e \<Rightarrow> Inl e
         | Inr l \<Rightarrow> Add_loop h (f\<lparr>b := bitset_Set (b f) l\<rparr>) data (i + 1))
      else Inr f)"
  by pat_completeness auto
termination
  by (relation "measure (\<lambda>(h, f, data, i). unat (k f) - unat i)") (simp_all add: loop_measure)

declare Add_loop.simps [simp del]

definition Add :: "hasher \<Rightarrow> BloomFilter \<Rightarrow> byte list \<Rightarrow> error + BloomFilter" where
  "Add h f data = Add_loop h f data 0"

function Test_loop :: "hasher \<Rightarrow> BloomFilter \<Rightarrow> byte list \<Rightarrow> uint \<Rightarrow> error + bool" where
  "Test_loop h f data i =
     (if i < k f then
        (case location h f data i of
           Inl e \<Rightarrow> Inl e
         | Inr l \<Rightarrow> if \<not> bitset_Test (b f) l then Inr False
                   else Test_loop h f data (i + 1))
      else Inr True)"
  by pat_completeness auto
termination
  by (relation "measure (\<lambda>(h, f, data, i). unat (k f) - unat i)") (simp_all add: loop_measure)

declare Test_loop.simps [simp del]

definition Test :: "hasher \<Rightarrow> BloomFilter \<Rightarrow> byte list \<Rightarrow> error + bool" where
  "Test h f data = Test_loop h f data 0"

fun TestLocations :: "BloomFilter \<Rightarrow> uint64 list \<Rightarrow> error + bool" where
  "TestLocations f [] = Inr True"
| "TestLocations f (l # locs) =
     (if m f = 0 then Inl DivideByZero
      else if \<not> bitset_Test (b f) (l mod m f) then Inr False
      else TestLocations f locs)"

function TestAndAdd_loop ::
  "hasher \<Rightarrow> BloomFilter \<Rightarrow> byte list \<Rightarrow> uint \<Rightarrow> bool \<Rightarrow> error + (bool \<times> BloomFilter)" where
  "TestAndAdd_loop h f data i present =
     (if i < k f then
        (case location h f data i of
           Inl e \<Rightarrow> Inl e
         | Inr l \<Rightarrow>
             TestAndAdd_loop h (f\<lparr>b := bitset_Set (b f) l\<rparr>) data (i + 1)
               (if \<not> bitset_Test (b f) l then False else present))
      else Inr (present, f))"
  by pat_completeness auto
termination
  by (relation "measure (\<lambda>(h, f, data, i, present). unat (k f) - unat i)")
    (simp_all add: loop_measure)

declare TestAndAdd_loop.simps [simp del]

definition TestAndAdd :: "hasher \<Rightarrow> BloomFilter \<Rightarrow> byte list \<Rightarrow> error + (bool \<times> BloomFilter)" where
  "TestAndAdd h f data = TestAndAdd_loop h f data 0 True"

definition ClearAll :: "BloomFilter \<Rightarrow> BloomFilter" where
  "ClearAll f = f\<lparr>b := bitset_ClearAll (b f)\<rparr>"

subsection \<open>The string variants\<close>

definition bytes_of_string :: "string \<Rightarrow> byte list" where
  "bytes_of_string s = map of_char s"

definition AddString :: "hasher \<Rightarrow> BloomFilter \<Rightarrow> string \<Rightarrow> error + BloomFilter" where
  "AddString h f data = Add h f (bytes_of_string data)"

definition TestString :: "hasher \<Rightarrow> BloomFilter \<Rightarrow> string \<Rightarrow> error + bool" where
  "TestString h f data = Test h f (bytes_of_string data)"

definition TestAndAddString ::
  "hasher \<Rightarrow> BloomFilter \<Rightarrow> string \<Rightarrow> error + (bool \<times> BloomFilter)" where
  "TestAndAddString h f data = TestAndAdd h f (bytes_of_string data)"

subsection \<open>Clients: sequences of method calls\<close>

text \<open>
  A client holds one filter and calls its exported methods one after the other. A call
  gives back the method's return value and the filter as the method leaves it; \<open>Add\<close>,
  \<open>AddString\<close> and \<open>ClearAll\<close> return the receiver itself.
\<close>

datatype op =
    OpAdd "byte list"
  | OpAddString string
  | OpTest "byte list"
  | OpTestString string
  | OpTestLocations "uint64 list"
  | OpTestAndAdd "byte list"
  | OpTestAndAddString string
  | OpCap
  | OpHashFunctionNum
  | OpClearAll

datatype ret = RetFilter | RetBool bool | RetUint uint

fun call :: "hasher \<Rightarrow> BloomFilter \<Rightarrow> op \<Rightarrow> error + (ret \<times> BloomFilter)" where
  "call h f (OpAdd data) =
     (case Add h f data of Inl e \<Rightarrow> Inl e | Inr f' \<Rightarrow> Inr (RetFilter, f'))"
| "call h f (OpAddString data) =
     (case AddString h f data of Inl e \<Rightarrow> Inl e | Inr f' \<Rightarrow> Inr (RetFilter, f'))"
| "call h f (OpTest data) =
     (case Test h f data of Inl e \<Rightarrow> Inl e | Inr r \<Rightarrow> Inr (RetBool r, f))"
| "call h f (OpTestString data) =
     (case TestString h f data of Inl e \<Rightarrow> Inl e | Inr r \<Rightarrow> Inr (RetBool r, f))"
| "call h f (OpTestLocations locs) =
     (case TestLocations f locs of Inl e \<Rightarrow> Inl e | Inr r \<Rightarrow> Inr (RetBool r, f))"
| "call h f (OpTestAndAdd data) =
     (case TestAndAdd h f data of Inl e \<Rightarrow> Inl e | Inr (r, f') \<Rightarrow> Inr (RetBool r, f'))"
| "call h f (OpTestAndAddString data) =
     (case TestAndAddString h f data of Inl e \<Rightarrow> Inl e | Inr (r, f') \<Rightarrow> Inr (RetBool r, f'))"
| "call h f OpCap = Inr (RetUint (Cap f), f)"
| "call h f OpHashFunctionNum = Inr (RetUint (HashFunctionNum f), f)"
| "call h f OpClearAll = Inr (RetFilter, ClearAll f)"

fun run :: "hasher \<Rightarrow> BloomFilter \<Rightarrow> op list \<Rightarrow> error + BloomFilter" where
  "run h f [] = Inr f"
| "run h f (c # cs) = (case call h f c of Inl e \<Rightarrow> Inl e | Inr (r, f') \<Rightarrow> run h f' cs)"

fun read_only :: "op \<Rightarrow> bool" where
  "read_only (OpTest data) = True"
| "read_only (OpTestString data) = True"
| "read_only (OpTestLocations locs) = True"
| "read_only OpCap = True"
| "read_only OpHashFunctionNum = True"
| "read_only c = False"

text \<open>
  The fields of a filter are not exported, so a client's filter is one that \<open>New\<close>
  returned, after any number of calls.
\<close>

inductive reachable :: "hasher \<Rightarrow> BloomFilter \<Rightarrow> bool" for h :: hasher where
  construct: "New mm kk = Inr f \<Longrightarrow> reachable h f"
| step: "reachable h f \<Longrightarrow> call h f c = Inr (r, f') \<Longrightarrow> reachable h f'"

text \<open>The invariants of the data model: both parameters positive, exactly \<open>m\<close> cells.\<close>

definition valid :: "BloomFilter \<Rightarrow> bool" where
  "valid f = (1 \<le> m f \<and> 1 \<le> k f \<and> length (b f) = unat (m f))"

subsection \<open>The salt, as the specification words it\<close>

text \<open>
  The 4-byte little-endian encoding of a number: byte \<open>j\<close> is digit \<open>j\<close> of the number
  in base 256, for the four lowest digits.
\<close>

definition spec_little_endian4 :: "nat \<Rightarrow> byte list" where
  "spec_little_endian4 n = map (\<lambda>j. of_nat (n div 256 ^ j mod 256)) [0, 1, 2, 3]"

subsection \<open>A concrete digest\<close>

text \<open>
  Modelled from the spec: the hash function dependency, "any function mapping an
  arbitrary byte sequence to a 64-bit unsigned integer", whose code is not among the
  sources. The instance is MurmurHash3 in its 128-bit variant for 64-bit machines with
  seed 0, of which the 64-bit digest is the first half; this is what the imported
  library's 64-bit hasher computes. No proof below looks into it: it serves to state
  the theorems at concrete inputs.
\<close>

definition c1_128 :: uint64 where
  "c1_128 = 0x87c37b91114253d5"

definition c2_128 :: uint64 where
  "c2_128 = 0x4cf5ad432745937f"

definition rotl64 :: "uint64 \<Rightarrow> nat \<Rightarrow> uint64" where
  "rotl64 x r = push_bit r x OR drop_bit (64 - r) x"

definition le_uint64 :: "byte list \<Rightarrow> uint64" where
  "le_uint64 bs = foldr (\<lambda>x acc. ucast x OR push_bit 8 acc) bs 0"

definition mix_k1 :: "uint64 \<Rightarrow> uint64" where
  "mix_k1 k1 = rotl64 (k1 * c1_128) 31 * c2_128"

definition mix_k2 :: "uint64 \<Rightarrow> uint64" where
  "mix_k2 k2 = rotl64 (k2 * c2_128) 33 * c1_128"

fun bmix :: "uint64 \<times> uint64 \<Rightarrow> byte list \<Rightarrow> (uint64 \<times> uint64) \<times> byte list" where
  "bmix (h1, h2) p =
     (if length p < 16 then ((h1, h2), p)
      else
        let k1 = le_uint64 (take 8 p);
            k2 = le_uint64 (take 8 (drop 8 p));
            h1a = h1 XOR mix_k1 k1;
            h1b = (rotl64 h1a 27 + h2) * 5 + 0x52dce729;
            h2a = h2 XOR mix_k2 k2;
            h2b = (rotl64 h2a 31 + h1b) * 5 + 0x38495ab5
        in bmix (h1b, h2b) (drop 16 p))"

declare bmix.simps [simp del]

definition fmix64 :: "uint64 \<Rightarrow> uint64" where
  "fmix64 k0 =
     (let k1 = (k0 XOR drop_bit 33 k0) * 0xff51afd7ed558ccd;
          k2 = (k1 XOR drop_bit 33 k1) * 0xc4ceb9fe1a85ec53
      in k2 XOR drop_bit 33 k2)"

definition murmur3_Sum64 :: hasher where
  "murmur3_Sum64 p =
     (let ((h1, h2), tail) = bmix (0, 0) p;
          h2a = (if length tail > 8 then h2 XOR mix_k2 (le_uint64 (drop 8 tail)) else h2);
          h1a = (if length tail > 0 then h1 XOR mix_k1 (le_uint64 (take 8 tail)) else h1);
          h1b = h1a XOR of_nat (length p);
          h2b = h2a XOR of_nat (length p);
          h1c = h1b + h2b;
          h2c = h2b + h1c
      in fmix64 h1c + fmix64 h2c)"

section \<open>Properties\<close>

subsection \<open>The bit array\<close>

lemma bitset_Test_Set: "bitset_Test (bitset_Set bs l) p = (p = l \<or> bitset_Test bs p)"
  by (auto simp: bitset_Test_def bitset_Set_def nth_list_update nth_append word_unat_eq_iff)

lemma bitset_Set_id: "bitset_Test bs l \<Longrightarrow> bitset_Set bs l = bs"
proof -
  assume "bitset_Test bs l"
  then have "unat l < length bs" and "bs ! unat l = True"
    by (simp_all add: bitset_Test_def)
  then show ?thesis
    using list_update_id [of bs "unat l"] by (simp add: bitset_Set_def)
qed

lemma length_bitset_Set: "unat l < length bs \<Longrightarrow> length (bitset_Set bs l) = length bs"
  by (simp add: bitset_Set_def)

lemma bitset_Test_New: "\<not> bitset_Test (bitset_New len) p"
  by (simp add: bitset_Test_def bitset_New_def)

lemma bitset_Test_ClearAll: "\<not> bitset_Test (bitset_ClearAll bs) p"
  by (simp add: bitset_Test_def bitset_ClearAll_def)

subsection \<open>Positions\<close>

lemma location_Inr: "m f \<noteq> 0 \<Longrightarrow> location h f data i = Inr (h (data @ uintToBytes i) mod m f)"
  by (simp add: location_def)

lemma mod_in_range: "mm \<noteq> 0 \<Longrightarrow> unat (x mod mm) < unat mm" for mm x :: uint
  by (simp add: word_mod_less_divisor word_gt_0 flip: word_less_nat_alt)

lemma byte_of_shift:
  "(ucast (drop_bit n v) :: byte) = of_nat (unat v div 2 ^ n mod 256)" for v :: uint
proof -
  have "unat (ucast (drop_bit n v) :: byte) = unat v div 2 ^ n mod 256"
    by (simp only: unsigned_ucast_eq unat_drop_bit_eq drop_bit_eq_div [of n "unat v"] take_bit_eq_mod)
      simp
  then show ?thesis
    by (metis of_nat_unat ucast_id)
qed

lemma uintToBytes_little_endian: "uintToBytes i = spec_little_endian4 (unat i)"
  using byte_of_shift [of 0 i] byte_of_shift [of 8 i] byte_of_shift [of 16 i] byte_of_shift [of 24 i]
  by (simp add: uintToBytes_def spec_little_endian4_def)

subsection \<open>What the loops compute\<close>

lemma Add_loop_char:
  "m f \<noteq> 0 \<Longrightarrow>
   \<exists>f'. Add_loop h f data i = Inr f' \<and> m f' = m f \<and> k f' = k f \<and>
     (length (b f) = unat (m f) \<longrightarrow> length (b f') = unat (m f)) \<and>
     (\<forall>p. bitset_Test (b f') p =
        (bitset_Test (b f) p \<or> (\<exists>j. i \<le> j \<and> j < k f \<and> p = h (data @ uintToBytes j) mod m f)))"
proof (induction h f data i rule: Add_loop.induct)
  case (1 h f data i)
  show ?case
  proof (cases "i < k f")
    case False
    then show ?thesis
      by (subst Add_loop.simps) auto
  next
    case True
    let ?l = "h (data @ uintToBytes i) mod m f"
    let ?f1 = "f\<lparr>b := bitset_Set (b f) ?l\<rparr>"
    have loc: "location h f data i = Inr ?l" using 1(2) by (rule location_Inr)
    have "m ?f1 \<noteq> 0" using 1(2) by simp
    from 1(1) [OF True loc this] obtain f' where
      r: "Add_loop h ?f1 data (i + 1) = Inr f'" and mk: "m f' = m f" "k f' = k f"
      and len: "length (b ?f1) = unat (m f) \<longrightarrow> length (b f') = unat (m f)"
      and bits: "\<And>p. bitset_Test (b f') p =
        (bitset_Test (b ?f1) p \<or> (\<exists>j. i + 1 \<le> j \<and> j < k f \<and> p = h (data @ uintToBytes j) mod m f))"
      by auto
    have "Add_loop h f data i = Inr f'"
      using True loc r by (subst Add_loop.simps) simp
    moreover have "length (b f) = unat (m f) \<longrightarrow> length (b f') = unat (m f)"
    proof
      assume eq: "length (b f) = unat (m f)"
      then have "unat ?l < length (b f)" using 1(2) by (simp add: mod_in_range)
      then have "length (b ?f1) = unat (m f)" using eq by (simp add: length_bitset_Set)
      with len show "length (b f') = unat (m f)" by simp
    qed
    moreover have "bitset_Test (b f') p =
        (bitset_Test (b f) p \<or> (\<exists>j. i \<le> j \<and> j < k f \<and> p = h (data @ uintToBytes j) mod m f))" for p
      using True by (auto simp: bits bitset_Test_Set word_le_step [OF True])
    ultimately show ?thesis using mk by blast
  qed
qed


lemma Test_loop_char:
  "m f \<noteq> 0 \<Longrightarrow>
   Test_loop h f data i =
     Inr (\<forall>j. i \<le> j \<and> j < k f \<longrightarrow> bitset_Test (b f) (h (data @ uintToBytes j) mod m f))"
proof (induction h f data i rule: Test_loop.induct)
  case (1 h f data i)
  show ?case
  proof (cases "i < k f")
    case False
    then show ?thesis
      by (subst Test_loop.simps) auto
  next
    case True
    let ?l = "h (data @ uintToBytes i) mod m f"
    have loc: "location h f data i = Inr ?l" using 1(2) by (rule location_Inr)
    show ?thesis
    proof (cases "bitset_Test (b f) ?l")
      case False
      then have "Test_loop h f data i = Inr False"
        using True loc by (subst Test_loop.simps) simp
      moreover have "\<not> (\<forall>j. i \<le> j \<and> j < k f \<longrightarrow>
          bitset_Test (b f) (h (data @ uintToBytes j) mod m f))"
        using False True by auto
      ultimately show ?thesis by simp
    next
      case set: True
      then have "\<not> \<not> bitset_Test (b f) ?l" by simp
      from 1(1) [OF True loc this 1(2)]
      have ih: "Test_loop h f data (i + 1) =
          Inr (\<forall>j. i + 1 \<le> j \<and> j < k f \<longrightarrow> bitset_Test (b f) (h (data @ uintToBytes j) mod m f))" .
      have "Test_loop h f data i = Test_loop h f data (i + 1)"
        using True loc set by (subst Test_loop.simps) simp
      then show ?thesis
        using set by (auto simp: ih word_le_step [OF True])
    qed
  qed
qed

lemma TestAndAdd_loop_char:
  "m f \<noteq> 0 \<Longrightarrow>
   \<exists>f'. Add_loop h f data i = Inr f' \<and>
     TestAndAdd_loop h f data i present =
       Inr (present \<and> (\<forall>j. i \<le> j \<and> j < k f \<longrightarrow>
              bitset_Test (b f) (h (data @ uintToBytes j) mod m f)), f')"
proof (induction h f data i present rule: TestAndAdd_loop.induct)
  case (1 h f data i present)
  show ?case
  proof (cases "i < k f")
    case False
    then show ?thesis
      by (subst Add_loop.simps, subst TestAndAdd_loop.simps) auto
  next
    case True
    let ?l = "h (data @ uintToBytes i) mod m f"
    let ?f1 = "f\<lparr>b := bitset_Set (b f) ?l\<rparr>"
    let ?p1 = "if \<not> bitset_Test (b f) ?l then False else present"
    have loc: "location h f data i = Inr ?l" using 1(2) by (rule location_Inr)
    have "m ?f1 \<noteq> 0" using 1(2) by simp
    from 1(1) [OF True loc this] obtain f' where
      a: "Add_loop h ?f1 data (i + 1) = Inr f'" and
      t: "TestAndAdd_loop h ?f1 data (i + 1) ?p1 =
        Inr (?p1 \<and> (\<forall>j. i + 1 \<le> j \<and> j < k f \<longrightarrow>
               bitset_Test (b ?f1) (h (data @ uintToBytes j) mod m f)), f')"
      by auto
    have a': "Add_loop h f data i = Inr f'"
      using True loc a by (subst Add_loop.simps) simp
    have t': "TestAndAdd_loop h f data i present = TestAndAdd_loop h ?f1 data (i + 1) ?p1"
      using True loc by (subst TestAndAdd_loop.simps) simp
    have "(?p1 \<and> (\<forall>j. i + 1 \<le> j \<and> j < k f \<longrightarrow>
               bitset_Test (b ?f1) (h (data @ uintToBytes j) mod m f))) =
          (present \<and> (\<forall>j. i \<le> j \<and> j < k f \<longrightarrow>
              bitset_Test (b f) (h (data @ uintToBytes j) mod m f)))"
    proof (cases "bitset_Test (b f) ?l")
      case False
      then show ?thesis using True by auto
    next
      case set: True
      then have "b ?f1 = b f" by (simp add: bitset_Set_id)
      then show ?thesis
        using set by (auto simp: word_le_step [OF True])
    qed
    then show ?thesis using a' t' t by simp
  qed
qed

lemma TestLocations_char:
  "m f \<noteq> 0 \<Longrightarrow> TestLocations f locs = Inr (\<forall>p \<in> set locs. bitset_Test (b f) (p mod m f))"
  by (induction locs) auto

subsection \<open>The invariants hold for every filter a client can hold\<close>

lemma one_le_word: "(1 \<le> x) = (x \<noteq> 0)" for x :: uint
  by (metis not_less word_less_1)

lemma valid_nonzero: "valid f \<Longrightarrow> m f \<noteq> 0"
  by (auto simp: valid_def)

lemma valid_rounds: "valid f \<Longrightarrow> 0 < k f"
  by (auto simp: valid_def word_gt_0)

lemma New_valid: "New mm kk = Inr f \<Longrightarrow> valid f"
  by (auto simp: New_def valid_def bitset_New_def one_le_word split: if_splits)

lemma ClearAll_valid: "valid f \<Longrightarrow> valid (ClearAll f)"
  by (simp add: valid_def ClearAll_def bitset_ClearAll_def)

lemma Add_loop_noop:
  "m f \<noteq> 0 \<Longrightarrow>
   \<forall>j. i \<le> j \<and> j < k f \<longrightarrow> bitset_Test (b f) (h (data @ uintToBytes j) mod m f) \<Longrightarrow>
   Add_loop h f data i = Inr f"
proof (induction h f data i rule: Add_loop.induct)
  case (1 h f data i)
  show ?case
  proof (cases "i < k f")
    case False
    then show ?thesis
      by (subst Add_loop.simps) simp
  next
    case True
    let ?l = "h (data @ uintToBytes i) mod m f"
    have loc: "location h f data i = Inr ?l" using 1(2) by (rule location_Inr)
    have "bitset_Test (b f) ?l" using 1(3) True by simp
    then have same: "f\<lparr>b := bitset_Set (b f) ?l\<rparr> = f" by (simp add: bitset_Set_id)
    have later: "\<forall>j. i + 1 \<le> j \<and> j < k f \<longrightarrow> bitset_Test (b f) (h (data @ uintToBytes j) mod m f)"
      using 1(3) by (simp add: word_le_step [OF True])
    have "Add_loop h f data (i + 1) = Inr f"
      using 1(1) [OF True loc] 1(2) later by (simp add: same)
    then show ?thesis
      using True loc by (subst Add_loop.simps) (simp add: same)
  qed
qed

lemma Add_valid:
  assumes "valid f"
  shows "\<exists>f'. Add h f data = Inr f' \<and> valid f' \<and> m f' = m f \<and> k f' = k f \<and>
     (\<forall>p. bitset_Test (b f') p =
        (bitset_Test (b f) p \<or> (\<exists>j. j < k f \<and> p = h (data @ uintToBytes j) mod m f)))"
proof -
  have nz: "m f \<noteq> 0" using assms by (rule valid_nonzero)
  from Add_loop_char [OF nz, of h data 0] obtain f' where
    "Add_loop h f data 0 = Inr f'" "m f' = m f" "k f' = k f"
    "length (b f) = unat (m f) \<longrightarrow> length (b f') = unat (m f)"
    "\<And>p. bitset_Test (b f') p =
        (bitset_Test (b f) p \<or> (\<exists>j. 0 \<le> j \<and> j < k f \<and> p = h (data @ uintToBytes j) mod m f))"
    by auto
  then show ?thesis
    using assms by (auto simp: Add_def valid_def)
qed

lemma Test_valid:
  "valid f \<Longrightarrow>
   Test h f data = Inr (\<forall>j. j < k f \<longrightarrow> bitset_Test (b f) (h (data @ uintToBytes j) mod m f))"
  using Test_loop_char [OF valid_nonzero, of f h data 0] by (simp add: Test_def)

lemma TestAndAdd_valid:
  assumes "valid f"
  shows "\<exists>r f'. Test h f data = Inr r \<and> Add h f data = Inr f' \<and> TestAndAdd h f data = Inr (r, f')"
proof -
  have nz: "m f \<noteq> 0" using assms by (rule valid_nonzero)
  from TestAndAdd_loop_char [OF nz, of h data 0 True] Test_loop_char [OF nz, of h data 0]
  show ?thesis
    by (auto simp: Test_def Add_def TestAndAdd_def)
qed

lemma call_valid:
  assumes "valid f"
  shows "\<exists>r f'. call h f c = Inr (r, f') \<and> valid f' \<and> m f' = m f \<and> k f' = k f \<and>
     (c \<noteq> OpClearAll \<longrightarrow> (\<forall>p. bitset_Test (b f) p \<longrightarrow> bitset_Test (b f') p)) \<and>
     (read_only c \<longrightarrow> f' = f)"
proof -
  have nz: "m f \<noteq> 0" using assms by (rule valid_nonzero)
  have add: "\<exists>f'. Add h f data = Inr f' \<and> valid f' \<and> m f' = m f \<and> k f' = k f \<and>
     (\<forall>p. bitset_Test (b f) p \<longrightarrow> bitset_Test (b f') p)" for data
    using Add_valid [OF assms, of h data] by auto
  have taa: "\<exists>r f'. TestAndAdd h f data = Inr (r, f') \<and> valid f' \<and> m f' = m f \<and> k f' = k f \<and>
     (\<forall>p. bitset_Test (b f) p \<longrightarrow> bitset_Test (b f') p)" for data
    using add [of data] TestAndAdd_valid [OF assms, of h data] by auto
  show ?thesis
  proof (cases c)
    case (OpAdd data)
    then show ?thesis using add [of data] by auto
  next
    case (OpAddString s)
    then show ?thesis using add [of "bytes_of_string s"] by (auto simp: AddString_def)
  next
    case (OpTest data)
    then show ?thesis using assms by (simp add: Test_valid)
  next
    case (OpTestString s)
    then show ?thesis using assms by (simp add: TestString_def Test_valid)
  next
    case (OpTestLocations locs)
    then show ?thesis using assms nz by (simp add: TestLocations_char)
  next
    case (OpTestAndAdd data)
    then show ?thesis using taa [of data] by auto
  next
    case (OpTestAndAddString s)
    then show ?thesis using taa [of "bytes_of_string s"] by (auto simp: TestAndAddString_def)
  next
    case OpCap
    then show ?thesis using assms by simp
  next
    case OpHashFunctionNum
    then show ?thesis using assms by simp
  next
    case OpClearAll
    then show ?thesis using ClearAll_valid [OF assms] by (simp add: ClearAll_def)
  qed
qed

lemma reachable_valid: "reachable h f \<Longrightarrow> valid f"
proof (induction rule: reachable.induct)
  case (construct mm kk f)
  then show ?case by (rule New_valid)
next
  case (step f c r f')
  then show ?case using call_valid [of f h c] by auto
qed

lemma run_valid:
  "valid f \<Longrightarrow> OpClearAll \<notin> set cs \<Longrightarrow>
   \<exists>f'. run h f cs = Inr f' \<and> valid f' \<and> m f' = m f \<and> k f' = k f \<and>
     (\<forall>p. bitset_Test (b f) p \<longrightarrow> bitset_Test (b f') p)"
proof (induction cs arbitrary: f)
  case Nil
  then show ?case by simp
next
  case (Cons c cs)
  from Cons.prems have "c \<noteq> OpClearAll" and rest: "OpClearAll \<notin> set cs" by auto
  with call_valid [OF Cons.prems(1), of h c] obtain r f1 where
    c: "call h f c = Inr (r, f1)" and v: "valid f1" and mk: "m f1 = m f" "k f1 = k f"
    and mono: "\<And>p. bitset_Test (b f) p \<Longrightarrow> bitset_Test (b f1) p"
    by auto
  from Cons.IH [OF v rest] obtain f' where
    "run h f1 cs = Inr f'" "valid f'" "m f' = m f1" "k f' = k f1"
    "\<And>p. bitset_Test (b f1) p \<Longrightarrow> bitset_Test (b f') p"
    by auto
  then show ?case using c mk mono by auto
qed

lemma cell_as_Test:
  fixes mm :: uint
  assumes "length bs = unat mm" and "n < length bs"
  shows "bs ! n = bitset_Test bs (of_nat n)"
proof -
  have "unat mm < 2 ^ 64" using unsigned_less [of mm] by simp
  then have "n < 2 ^ 64" using assms by simp
  then have "unat (of_nat n :: uint) = n" by (simp add: unat_of_nat)
  then show ?thesis using assms by (simp add: bitset_Test_def)
qed

subsection \<open>The digest at known inputs\<close>

text \<open>
  The digest of \<open>hello\<close> is the value the algorithm's reference vectors give for it, and
  the first position of the item \<open>alpha\<close> in a filter of 100 cells is cell 1.
\<close>

lemma murmur3_Sum64_hello: "murmur3_Sum64 (bytes_of_string ''hello'') = 0xcbd8a7b341bd9b02"
  by code_simp

lemma location_alpha_round0:
  "location murmur3_Sum64 \<lparr>m = 100, k = 4, b = []\<rparr> (bytes_of_string ''alpha'') 0 = Inr 1"
  by code_simp

section \<open>The claims\<close>

text \<open>
  C1. No false negatives: for every byte sequence \<open>x\<close> and every filter reachable from
  construction, \<open>Add x\<close> succeeds and \<open>Test x\<close> is true right after it, and it is
  still true after any further calls (of \<open>Add\<close> and of every other method, with any
  arguments) among which there is no \<open>ClearAll\<close>.
\<close>

theorem no_false_negatives:
  assumes "reachable h f" and "OpClearAll \<notin> set cs"
  shows "\<exists>f1 f2. Add h f x = Inr f1 \<and> Test h f1 x = Inr True \<and>
           run h f1 cs = Inr f2 \<and> Test h f2 x = Inr True"
proof -
  have v: "valid f" using assms(1) by (rule reachable_valid)
  from Add_valid [OF v, of h x] obtain f1 where
    a: "Add h f x = Inr f1" and v1: "valid f1" and mk1: "m f1 = m f" "k f1 = k f"
    and bits1: "\<And>j. j < k f \<Longrightarrow> bitset_Test (b f1) (h (x @ uintToBytes j) mod m f)"
    by auto
  from run_valid [OF v1 assms(2), of h] obtain f2 where
    r: "run h f1 cs = Inr f2" and v2: "valid f2" and mk2: "m f2 = m f1" "k f2 = k f1"
    and mono: "\<And>p. bitset_Test (b f1) p \<Longrightarrow> bitset_Test (b f2) p"
    by auto
  have "Test h f1 x = Inr True"
    using bits1 by (simp add: Test_valid [OF v1] mk1)
  moreover have "Test h f2 x = Inr True"
    using bits1 mono by (simp add: Test_valid [OF v2] mk1 mk2)
  ultimately show ?thesis using a r by blast
qed

theorem no_false_negatives_witness:
  "reachable murmur3_Sum64 \<lparr>m = 100, k = 4, b = bitset_New 100\<rparr> \<and>
   OpClearAll \<notin> set [OpAddString ''beta'', OpTestAndAdd [1, 2, 3], OpTestString ''alpha''] \<and>
   (\<exists>f1 f2. Add murmur3_Sum64 \<lparr>m = 100, k = 4, b = bitset_New 100\<rparr> (bytes_of_string ''alpha'') = Inr f1 \<and>
      Test murmur3_Sum64 f1 (bytes_of_string ''alpha'') = Inr True \<and>
      run murmur3_Sum64 f1 [OpAddString ''beta'', OpTestAndAdd [1, 2, 3], OpTestString ''alpha''] = Inr f2 \<and>
      Test murmur3_Sum64 f2 (bytes_of_string ''alpha'') = Inr True)"
proof -
  have r: "reachable murmur3_Sum64 \<lparr>m = 100, k = 4, b = bitset_New 100\<rparr>"
    by (rule reachable.construct [of 100 4]) (simp add: New_def)
  have c: "OpClearAll \<notin> set [OpAddString ''beta'', OpTestAndAdd [1, 2, 3], OpTestString ''alpha'']"
    by simp
  from r c no_false_negatives [OF r c] show ?thesis by blast
qed

text \<open>
  C2. \<open>New m k\<close> returns an error exactly when \<open>m < 1\<close> or \<open>k < 1\<close>, the error is the
  invalid-parameter one, and no filter comes with it; when \<open>m \<ge> 1\<close> and \<open>k \<ge> 1\<close> it
  returns the filter with these parameters and \<open>m\<close> cells, all cleared. No call of any
  method on a filter reachable from construction fails.
\<close>

theorem New_validation:
  "((\<exists>e. New mm kk = Inl e) = (mm < 1 \<or> kk < 1)) \<and>
   (\<forall>e. New mm kk = Inl e \<longrightarrow> (\<exists>msg. e = InvalidParameter msg)) \<and>
   (1 \<le> mm \<and> 1 \<le> kk \<longrightarrow>
      New mm kk = Inr \<lparr>m = mm, k = kk, b = replicate (unat mm) False\<rparr>) \<and>
   (reachable h f \<longrightarrow> (\<exists>r f'. call h f c = Inr (r, f')))"
proof -
  have "reachable h f \<longrightarrow> (\<exists>r f'. call h f c = Inr (r, f'))"
  proof
    assume "reachable h f"
    then have "valid f" by (rule reachable_valid)
    from call_valid [OF this, of h c] show "\<exists>r f'. call h f c = Inr (r, f')" by blast
  qed
  moreover have "1 \<le> mm \<and> 1 \<le> kk \<longrightarrow>
      New mm kk = Inr \<lparr>m = mm, k = kk, b = replicate (unat mm) False\<rparr>"
    by (simp add: New_def bitset_New_def one_le_word)
  moreover have "(\<exists>e. New mm kk = Inl e) = (mm < 1 \<or> kk < 1)"
    by (simp add: New_def)
  moreover have "\<forall>e. New mm kk = Inl e \<longrightarrow> (\<exists>msg. e = InvalidParameter msg)"
    by (auto simp: New_def split: if_splits)
  ultimately show ?thesis by blast
qed

theorem New_validation_witness:
  "(\<exists>e. New 0 0 = Inl e) \<and> (\<exists>e. New 0 4 = Inl e) \<and> (\<exists>e. New 100 0 = Inl e) \<and>
   New 1 1 = Inr \<lparr>m = 1, k = 1, b = [False]\<rparr> \<and>
   reachable murmur3_Sum64 \<lparr>m = 1, k = 1, b = [False]\<rparr> \<and>
   (\<exists>r f'. call murmur3_Sum64 \<lparr>m = 1, k = 1, b = [False]\<rparr>
       (OpTestLocations [0, 18446744073709551615]) = Inr (r, f'))"
proof -
  have n: "New 1 1 = Inr \<lparr>m = 1, k = 1, b = [False]\<rparr>"
    using New_validation [where mm = 1 and kk = 1 and h = murmur3_Sum64
        and f = "\<lparr>m = 1, k = 1, b = [False]\<rparr>" and c = OpCap]
    by simp
  then have r: "reachable murmur3_Sum64 \<lparr>m = 1, k = 1, b = [False]\<rparr>"
    by (rule reachable.construct)
  show ?thesis
    using n r
      New_validation [where mm = 0 and kk = 0 and h = murmur3_Sum64
        and f = "\<lparr>m = 1, k = 1, b = [False]\<rparr>" and c = OpCap]
      New_validation [where mm = 0 and kk = 4 and h = murmur3_Sum64
        and f = "\<lparr>m = 1, k = 1, b = [False]\<rparr>" and c = OpCap]
      New_validation [where mm = 100 and kk = 0 and h = murmur3_Sum64
        and f = "\<lparr>m = 1, k = 1, b = [False]\<rparr>" and c = OpCap]
      New_validation [where mm = 1 and kk = 1 and h = murmur3_Sum64
        and f = "\<lparr>m = 1, k = 1, b = [False]\<rparr>"
        and c = "OpTestLocations [0, 18446744073709551615]"]
    by simp
qed

text \<open>
  C3. For every byte sequence \<open>data\<close> and round index \<open>i\<close>, on a filter with \<open>m \<ge> 1\<close>,
  \<open>location data i\<close> is the 64-bit hash of \<open>data\<close> followed by the 4-byte little-endian
  encoding of \<open>i\<close>, reduced modulo \<open>m\<close>; it is below \<open>m\<close>; and it depends on the
  filter through \<open>m\<close> alone, so that neither the bit array nor \<open>k\<close> nor earlier calls
  change it. (Of an index of more than 32 bits the encoding keeps the lowest four
  bytes.)
\<close>

theorem location_is_salted_hash_mod_m:
  assumes "1 \<le> m f"
  shows "location h f data i = Inr (h (data @ spec_little_endian4 (unat i)) mod m f) \<and>
         h (data @ spec_little_endian4 (unat i)) mod m f < m f \<and>
         (\<forall>g. m g = m f \<longrightarrow> location h g data i = location h f data i)"
proof -
  have nz: "m f \<noteq> 0" using assms by (simp add: one_le_word)
  then have "h (data @ spec_little_endian4 (unat i)) mod m f < m f"
    by (simp add: word_mod_less_divisor word_gt_0)
  moreover have "location h f data i = Inr (h (data @ spec_little_endian4 (unat i)) mod m f)"
    using nz by (simp add: location_Inr uintToBytes_little_endian)
  moreover have "\<forall>g. m g = m f \<longrightarrow> location h g data i = location h f data i"
    by (simp add: location_def)
  ultimately show ?thesis by blast
qed

theorem location_is_salted_hash_mod_m_witness:
  "1 \<le> m \<lparr>m = 100, k = 4, b = bitset_New 100\<rparr> \<and>
   location murmur3_Sum64 \<lparr>m = 100, k = 4, b = bitset_New 100\<rparr> (bytes_of_string ''alpha'') 3 =
     Inr (murmur3_Sum64 (bytes_of_string ''alpha'' @ [3, 0, 0, 0]) mod 100) \<and>
   murmur3_Sum64 (bytes_of_string ''alpha'' @ [3, 0, 0, 0]) mod 100 < 100 \<and>
   location murmur3_Sum64 \<lparr>m = 100, k = 9, b = []\<rparr> (bytes_of_string ''alpha'') 3 =
   location murmur3_Sum64 \<lparr>m = 100, k = 4, b = bitset_New 100\<rparr> (bytes_of_string ''alpha'') 3"
proof -
  have h: "1 \<le> m \<lparr>m = 100, k = 4, b = bitset_New 100\<rparr>" by simp
  have e: "spec_little_endian4 3 = [3, 0, 0, 0]"
    by (simp add: spec_little_endian4_def)
  from location_is_salted_hash_mod_m [OF h, of murmur3_Sum64 "bytes_of_string ''alpha''" 3]
  show ?thesis by (simp add: e)
qed

text \<open>
  C4. For every byte sequence \<open>x\<close> and every filter that satisfies the invariants,
  \<open>TestAndAdd x\<close> succeeds, returns the boolean that \<open>Test x\<close> returns on the filter as
  it was before the call, and leaves the filter in the state in which \<open>Add x\<close> leaves
  it; \<open>Test x\<close> is true afterwards.
\<close>

theorem TestAndAdd_is_Test_then_Add:
  assumes "valid f"
  shows "\<exists>r f'. Test h f x = Inr r \<and> Add h f x = Inr f' \<and>
           TestAndAdd h f x = Inr (r, f') \<and> Test h f' x = Inr True"
proof -
  from TestAndAdd_valid [OF assms, of h x] obtain r f' where
    t: "Test h f x = Inr r" and a: "Add h f x = Inr f'" and ta: "TestAndAdd h f x = Inr (r, f')"
    by blast
  from Add_valid [OF assms, of h x] a have v': "valid f'" and mk: "m f' = m f" "k f' = k f"
    and bits: "\<And>j. j < k f \<Longrightarrow> bitset_Test (b f') (h (x @ uintToBytes j) mod m f)"
    by auto
  have "Test h f' x = Inr True"
    using bits by (simp add: Test_valid [OF v'] mk)
  with t a ta show ?thesis by blast
qed

theorem TestAndAdd_is_Test_then_Add_witness:
  "valid \<lparr>m = 3, k = 2, b = [True, False, True]\<rparr> \<and>
   (\<exists>r f'. Test murmur3_Sum64 \<lparr>m = 3, k = 2, b = [True, False, True]\<rparr> [7, 8] = Inr r \<and>
      Add murmur3_Sum64 \<lparr>m = 3, k = 2, b = [True, False, True]\<rparr> [7, 8] = Inr f' \<and>
      TestAndAdd murmur3_Sum64 \<lparr>m = 3, k = 2, b = [True, False, True]\<rparr> [7, 8] = Inr (r, f') \<and>
      Test murmur3_Sum64 f' [7, 8] = Inr True)"
proof -
  have v: "valid \<lparr>m = 3, k = 2, b = [True, False, True]\<rparr>"
    by (simp add: valid_def)
  from v TestAndAdd_is_Test_then_Add [OF v, of murmur3_Sum64 "[7, 8]"] show ?thesis by blast
qed

text \<open>
  C5. \<open>Add\<close> is idempotent: for every byte sequence \<open>x\<close> and every filter that
  satisfies the invariants, a second \<open>Add x\<close> right after the first leaves the bit
  array, and the whole filter, as the first left it.
\<close>

theorem Add_idempotent:
  assumes "valid f"
  shows "\<exists>f1 f2. Add h f x = Inr f1 \<and> Add h f1 x = Inr f2 \<and> b f2 = b f1 \<and> f2 = f1"
proof -
  from Add_valid [OF assms, of h x] obtain f1 where
    a: "Add h f x = Inr f1" and v1: "valid f1" and mk: "m f1 = m f" "k f1 = k f"
    and bits: "\<And>j. j < k f \<Longrightarrow> bitset_Test (b f1) (h (x @ uintToBytes j) mod m f)"
    by auto
  have "Add_loop h f1 x 0 = Inr f1"
    using bits by (intro Add_loop_noop valid_nonzero [OF v1]) (simp add: mk)
  then have "Add h f1 x = Inr f1" by (simp add: Add_def)
  with a show ?thesis by blast
qed

theorem Add_idempotent_witness:
  "valid \<lparr>m = 3, k = 2, b = [True, False, False]\<rparr> \<and>
   (\<exists>f1 f2. Add murmur3_Sum64 \<lparr>m = 3, k = 2, b = [True, False, False]\<rparr> [7, 8] = Inr f1 \<and>
      Add murmur3_Sum64 f1 [7, 8] = Inr f2 \<and> b f2 = b f1 \<and> f2 = f1)"
proof -
  have v: "valid \<lparr>m = 3, k = 2, b = [True, False, False]\<rparr>"
    by (simp add: valid_def)
  from v Add_idempotent [OF v, of murmur3_Sum64 "[7, 8]"] show ?thesis by blast
qed

text \<open>
  C6. \<open>ClearAll\<close> clears every cell of the array, keeps its length, \<open>m\<close> and \<open>k\<close>, and
  returns the receiver. On a filter that satisfies the invariants the result is the
  filter that \<open>New\<close> returns for the same parameters, and \<open>Test\<close> is false on it for
  every item.
\<close>

theorem ClearAll_resets:
  "(\<forall>p. \<not> bitset_Test (b (ClearAll f)) p) \<and>
   (\<forall>c \<in> set (b (ClearAll f)). \<not> c) \<and>
   length (b (ClearAll f)) = length (b f) \<and>
   m (ClearAll f) = m f \<and> k (ClearAll f) = k f \<and>
   call h f OpClearAll = Inr (RetFilter, ClearAll f) \<and>
   (valid f \<longrightarrow>
      New (m f) (k f) = Inr (ClearAll f) \<and> (\<forall>x. Test h (ClearAll f) x = Inr False))"
proof -
  have cells: "(\<forall>p. \<not> bitset_Test (b (ClearAll f)) p) \<and> (\<forall>c \<in> set (b (ClearAll f)). \<not> c) \<and>
      length (b (ClearAll f)) = length (b f) \<and> m (ClearAll f) = m f \<and> k (ClearAll f) = k f"
    by (simp add: ClearAll_def bitset_Test_ClearAll) (simp add: bitset_ClearAll_def)
  have "New (m f) (k f) = Inr (ClearAll f) \<and> (\<forall>x. Test h (ClearAll f) x = Inr False)"
    if v: "valid f"
  proof
    show "New (m f) (k f) = Inr (ClearAll f)"
      using v by (simp add: valid_def New_def one_le_word ClearAll_def bitset_New_def
          bitset_ClearAll_def)
    show "\<forall>x. Test h (ClearAll f) x = Inr False"
    proof
      fix x
      have "0 < k (ClearAll f)" using valid_rounds [OF ClearAll_valid [OF v]] .
      then have "\<not> (\<forall>j. j < k (ClearAll f) \<longrightarrow>
          bitset_Test (b (ClearAll f)) (h (x @ uintToBytes j) mod m (ClearAll f)))"
        using cells by blast
      then show "Test h (ClearAll f) x = Inr False"
        by (simp add: Test_valid [OF ClearAll_valid [OF v]])
    qed
  qed
  moreover have "call h f OpClearAll = Inr (RetFilter, ClearAll f)" by simp
  ultimately show ?thesis using cells by blast
qed

theorem ClearAll_resets_witness:
  "valid \<lparr>m = 3, k = 2, b = [True, False, True]\<rparr> \<and>
   ClearAll \<lparr>m = 3, k = 2, b = [True, False, True]\<rparr> = \<lparr>m = 3, k = 2, b = [False, False, False]\<rparr> \<and>
   New 3 2 = Inr \<lparr>m = 3, k = 2, b = [False, False, False]\<rparr> \<and>
   Test murmur3_Sum64 \<lparr>m = 3, k = 2, b = [False, False, False]\<rparr> [7, 8] = Inr False"
proof -
  have v: "valid \<lparr>m = 3, k = 2, b = [True, False, True]\<rparr>"
    by (simp add: valid_def)
  have c: "ClearAll \<lparr>m = 3, k = 2, b = [True, False, True]\<rparr> = \<lparr>m = 3, k = 2, b = [False, False, False]\<rparr>"
    by (simp add: ClearAll_def bitset_ClearAll_def)
  from v c ClearAll_resets [of "\<lparr>m = 3, k = 2, b = [True, False, True]\<rparr>" murmur3_Sum64]
  show ?thesis by simp
qed

text \<open>
  C7. Bits only get set: on a filter that satisfies the invariants, every sequence of
  calls of \<open>Add\<close>, \<open>AddString\<close>, \<open>Test\<close>, \<open>TestString\<close>, \<open>TestAndAdd\<close>,
  \<open>TestAndAddString\<close>, \<open>TestLocations\<close>, \<open>Cap\<close> and \<open>HashFunctionNum\<close> (any sequence
  without \<open>ClearAll\<close>) succeeds, keeps the length of the array, and leaves set every
  cell that was set before it; the resulting filter satisfies the invariants again, so
  the same holds from every intermediate state on.
\<close>

theorem bits_stay_set:
  assumes "valid f" and "OpClearAll \<notin> set cs"
  shows "\<exists>f'. run h f cs = Inr f' \<and> valid f' \<and> length (b f') = length (b f) \<and>
           (\<forall>p. bitset_Test (b f) p \<longrightarrow> bitset_Test (b f') p) \<and>
           (\<forall>n < length (b f). b f ! n \<longrightarrow> b f' ! n)"
proof -
  from run_valid [OF assms, of h] obtain f' where
    r: "run h f cs = Inr f'" and v': "valid f'" and mk: "m f' = m f"
    and mono: "\<And>p. bitset_Test (b f) p \<Longrightarrow> bitset_Test (b f') p"
    by auto
  have len: "length (b f) = unat (m f)" "length (b f') = unat (m f)"
    using assms(1) v' mk by (simp_all add: valid_def)
  have "b f' ! n" if "n < length (b f)" and "b f ! n" for n
    using that mono [of "of_nat n"] cell_as_Test [OF len(1), of n] cell_as_Test [OF len(2), of n] len
    by simp
  with r v' len mono show ?thesis by auto
qed

theorem bits_stay_set_witness:
  "valid \<lparr>m = 3, k = 2, b = [True, False, False]\<rparr> \<and>
   OpClearAll \<notin> set [OpAdd [7, 8], OpTestAndAddString ''beta'', OpTestLocations [5], OpCap] \<and>
   (\<exists>f'. run murmur3_Sum64 \<lparr>m = 3, k = 2, b = [True, False, False]\<rparr>
        [OpAdd [7, 8], OpTestAndAddString ''beta'', OpTestLocations [5], OpCap] = Inr f' \<and>
      length (b f') = 3 \<and> b f' ! 0)"
proof -
  have v: "valid \<lparr>m = 3, k = 2, b = [True, False, False]\<rparr>"
    by (simp add: valid_def)
  have c: "OpClearAll \<notin> set [OpAdd [7, 8], OpTestAndAddString ''beta'', OpTestLocations [5], OpCap]"
    by simp
  from bits_stay_set [OF v c, of murmur3_Sum64] obtain f' where
    "run murmur3_Sum64 \<lparr>m = 3, k = 2, b = [True, False, False]\<rparr>
        [OpAdd [7, 8], OpTestAndAddString ''beta'', OpTestLocations [5], OpCap] = Inr f'"
    "length (b f') = 3" "\<forall>n < 3. [True, False, False] ! n \<longrightarrow> b f' ! n"
    by auto
  then have "run murmur3_Sum64 \<lparr>m = 3, k = 2, b = [True, False, False]\<rparr>
        [OpAdd [7, 8], OpTestAndAddString ''beta'', OpTestLocations [5], OpCap] = Inr f' \<and>
      length (b f') = 3 \<and> b f' ! 0"
    by auto
  with v c show ?thesis by blast
qed

text \<open>
  C8. For every list \<open>locs\<close> of 64-bit values, on a filter that satisfies the
  invariants, \<open>TestLocations locs\<close> does not fail and returns true if and only if, for
  every element \<open>p\<close> of \<open>locs\<close>, the cell at index \<open>p mod m\<close> is set; that index is
  inside the array.
\<close>

theorem TestLocations_all_set:
  assumes "valid f"
  shows "TestLocations f locs = Inr (\<forall>p \<in> set locs. bitset_Test (b f) (p mod m f)) \<and>
         (\<forall>p \<in> set locs. unat (p mod m f) < length (b f) \<and>
            bitset_Test (b f) (p mod m f) = b f ! unat (p mod m f))"
proof -
  have nz: "m f \<noteq> 0" using assms by (rule valid_nonzero)
  have "unat (p mod m f) < length (b f)" for p
    using assms mod_in_range [OF nz, of p] by (simp add: valid_def)
  then show ?thesis
    using nz by (simp add: TestLocations_char bitset_Test_def)
qed

theorem TestLocations_all_set_witness:
  "valid \<lparr>m = 3, k = 2, b = [True, False, True]\<rparr> \<and>
   TestLocations \<lparr>m = 3, k = 2, b = [True, False, True]\<rparr> [3, 18446744073709551614] = Inr True \<and>
   TestLocations \<lparr>m = 3, k = 2, b = [True, False, True]\<rparr> [3, 4] = Inr False \<and>
   TestLocations \<lparr>m = 3, k = 2, b = [True, False, True]\<rparr> [] = Inr True"
proof -
  have v: "valid \<lparr>m = 3, k = 2, b = [True, False, True]\<rparr>"
    by (simp add: valid_def)
  from v
    TestLocations_all_set [OF v, of "[3, 18446744073709551614]"]
    TestLocations_all_set [OF v, of "[3, 4]"]
    TestLocations_all_set [OF v, of "[]"]
  show ?thesis by (simp add: bitset_Test_def)
qed

text \<open>
  C9. For every byte sequence \<open>x\<close>, on a filter that satisfies the invariants,
  \<open>Test x\<close> does not fail and returns true if and only if, for every round index \<open>i\<close>
  below \<open>k\<close>, the cell at \<open>location x i\<close> is set; one cleared cell among them makes
  it false.
\<close>

theorem Test_all_rounds_set:
  assumes "valid f"
  shows "Test h f x = Inr (\<forall>i < k f. \<exists>l. location h f x i = Inr l \<and> bitset_Test (b f) l)"
  using assms by (simp add: Test_valid location_Inr [OF valid_nonzero])

theorem Test_all_rounds_set_witness:
  "valid \<lparr>m = 3, k = 2, b = [True, True, True]\<rparr> \<and>
   Test murmur3_Sum64 \<lparr>m = 3, k = 2, b = [True, True, True]\<rparr> [7, 8] = Inr True \<and>
   valid \<lparr>m = 3, k = 2, b = [False, False, False]\<rparr> \<and>
   Test murmur3_Sum64 \<lparr>m = 3, k = 2, b = [False, False, False]\<rparr> [7, 8] = Inr False"
proof -
  have v1: "valid \<lparr>m = 3, k = 2, b = [True, True, True]\<rparr>"
    and v0: "valid \<lparr>m = 3, k = 2, b = [False, False, False]\<rparr>"
    by (simp_all add: valid_def)
  have in_range: "unat (p mod 3) < 3" for p :: uint
    using mod_in_range [of 3 p] by simp
  have all_set: "bitset_Test [True, True, True] (p mod 3)" for p :: uint
    using in_range [of p] by (auto simp: bitset_Test_def less_Suc_eq numeral_3_eq_3)
  have "bitset_New 3 = replicate 3 False"
    by (simp add: bitset_New_def)
  also have "replicate 3 False = [False, False, False]"
    by (simp add: numeral_3_eq_3)
  finally have none_set: "\<not> bitset_Test [False, False, False] p" for p :: uint
    using bitset_Test_New [of 3 p] by simp
  have "Test murmur3_Sum64 \<lparr>m = 3, k = 2, b = [True, True, True]\<rparr> [7, 8] = Inr True"
    using Test_all_rounds_set [OF v1, of murmur3_Sum64 "[7, 8]"]
    by (simp add: location_def all_set)
  moreover have "Test murmur3_Sum64 \<lparr>m = 3, k = 2, b = [False, False, False]\<rparr> [7, 8] = Inr False"
    using Test_all_rounds_set [OF v0, of murmur3_Sum64 "[7, 8]"]
    by (simp add: location_def none_set) (rule exI [of _ 0], simp)
  ultimately show ?thesis using v1 v0 by blast
qed

text \<open>
  C10. The reading methods \<open>Test\<close>, \<open>TestString\<close>, \<open>TestLocations\<close>, \<open>Cap\<close> and
  \<open>HashFunctionNum\<close> leave the filter as it was, bit array, \<open>m\<close> and \<open>k\<close>, whatever
  their argument; on a filter that satisfies the invariants each of them returns, and
  so does every sequence of them, with the filter unchanged.
\<close>

theorem reads_leave_filter_unchanged:
  "(read_only c \<longrightarrow> (\<forall>r f'. call h f c = Inr (r, f') \<longrightarrow> f' = f)) \<and>
   (read_only c \<and> valid f \<longrightarrow> (\<exists>r. call h f c = Inr (r, f))) \<and>
   ((\<forall>c \<in> set cs. read_only c) \<and> valid f \<longrightarrow> run h f cs = Inr f)"
proof -
  have frame: "f' = f" if "read_only c" and "call h f c = Inr (r, f')" for c r f'
    using that by (cases c) (auto split: sum.splits)
  have total: "\<exists>r. call h f c = Inr (r, f)" if "read_only c" and "valid f" for c
    using call_valid [OF that(2), of h c] that(1) by auto
  have "run h f cs = Inr f" if "\<forall>c \<in> set cs. read_only c" and "valid f"
    using that(1)
  proof (induction cs)
    case Nil
    show ?case by simp
  next
    case (Cons c cs)
    from total [of c] Cons.prems that(2) obtain r where "call h f c = Inr (r, f)" by auto
    with Cons show ?case by simp
  qed
  with frame total show ?thesis by blast
qed

theorem reads_leave_filter_unchanged_witness:
  "read_only (OpTestString ''alpha'') \<and> valid \<lparr>m = 3, k = 2, b = [True, False, True]\<rparr> \<and>
   (\<exists>r. call murmur3_Sum64 \<lparr>m = 3, k = 2, b = [True, False, True]\<rparr> (OpTestString ''alpha'') =
      Inr (r, \<lparr>m = 3, k = 2, b = [True, False, True]\<rparr>)) \<and>
   run murmur3_Sum64 \<lparr>m = 3, k = 2, b = [True, False, True]\<rparr>
     [OpTest [7, 8], OpTestLocations [5, 6], OpCap, OpHashFunctionNum] =
     Inr \<lparr>m = 3, k = 2, b = [True, False, True]\<rparr>"
proof -
  have v: "valid \<lparr>m = 3, k = 2, b = [True, False, True]\<rparr>"
    by (simp add: valid_def)
  from v
    reads_leave_filter_unchanged [of "OpTestString ''alpha''" murmur3_Sum64
      "\<lparr>m = 3, k = 2, b = [True, False, True]\<rparr>"
      "[OpTest [7, 8], OpTestLocations [5, 6], OpCap, OpHashFunctionNum]"]
  show ?thesis by simp
qed

end
